theory Spec2Isabelle
  imports Complex_Main "HOL-Library.Word"
begin

unbundle bit_operations_syntax

section \<open>Bloom filter over word fragments (bloom.go)\<close>

type_synonym u8 = "8 word"
type_synonym u32 = "32 word"
type_synonym u64 = "64 word"

text \<open>Run-time panics of the Go program, as values.\<close>

datatype panic = DivideByZero | IndexOutOfRange

subsection \<open>The word-byte table\<close>

text \<open>
  The condition of \<open>initBloomWordTab\<close> on a byte value, with the character constants
  written as their codes: underscore 95, a 97, z 122, A 65, Z 90, 0 48, 9 57. The upper-case
  range is written with a strict bound in the source.
\<close>

definition wordTabCond :: "nat \<Rightarrow> bool" where
  "wordTabCond x =
     (x = 95 \<or> (97 \<le> x \<and> x \<le> 122) \<or> (65 \<le> x \<and> x < 90) \<or> (48 \<le> x \<and> x \<le> 57))"

text \<open>
  The loop \<open>for x := byte(0); x < 128; x++\<close>. The counter stays below 128, so it is
  a natural number here; the table has four 64-bit entries.
\<close>

function initBloomWordTabLoop :: "nat \<Rightarrow> u64 list \<Rightarrow> u64 list" where
  "initBloomWordTabLoop x tab =
     (if x < 128
      then initBloomWordTabLoop (x + 1)
             (if wordTabCond x
              then tab[x div 64 := (tab ! (x div 64)) OR push_bit (x mod 64) 1]
              else tab)
      else tab)"
  by pat_completeness auto
termination
  by (relation "measure (\<lambda>(x, tab). 128 - x)") auto

declare initBloomWordTabLoop.simps [simp del]

definition initBloomWordTab :: "u64 list" where
  "initBloomWordTab = initBloomWordTabLoop 0 [0, 0, 0, 0]"

definition bloomWordTab :: "u64 list" where
  "bloomWordTab = initBloomWordTab"

text \<open>
  The test \<open>bloomWordTab[c/64] & (1 << (c%64)) != 0\<close> of \<open>findNextWord\<close>. A byte
  divided by 64 is below 4, so the table read is always in range.
\<close>

definition isWordByte :: "u8 \<Rightarrow> bool" where
  "isWordByte c = ((bloomWordTab ! (unat c div 64)) AND push_bit (unat c mod 64) 1 \<noteq> 0)"

subsection \<open>findNextWord\<close>

definition bloomHashMinWordLength :: nat where
  "bloomHashMinWordLength = 4"

text \<open>
  \<open>bytes.ToLower\<close> of the Go library on a slice of ASCII bytes: the letters A to Z are
  moved to a to z, every other byte is kept. It is only ever applied to word bytes, which
  are below 128.
\<close>

definition toLowerByte :: "u8 \<Rightarrow> u8" where
  "toLowerByte c = (if 65 \<le> c \<and> c \<le> 90 then c + 32 else c)"

definition toLower :: "u8 list \<Rightarrow> u8 list" where
  "toLower s = map toLowerByte s"

text \<open>The slice expression \<open>s[i:j]\<close>, for \<open>i \<le> j \<le> len(s)\<close>.\<close>

definition slice :: "'a list \<Rightarrow> nat \<Rightarrow> nat \<Rightarrow> 'a list" where
  "slice s i j = take (j - i) (drop i s)"

text \<open>The first inner loop: skip the bytes that are not word bytes.\<close>

function skipNonWord :: "nat \<Rightarrow> u8 list \<Rightarrow> nat" where
  "skipNonWord i inp =
     (if i < length inp \<and> \<not> isWordByte (inp ! i) then skipNonWord (i + 1) inp else i)"
  by pat_completeness auto
termination
  by (relation "measure (\<lambda>(i, inp). length inp - i)") auto

declare skipNonWord.simps [simp del]

text \<open>The second inner loop: run over the word bytes.\<close>

function skipWord :: "nat \<Rightarrow> u8 list \<Rightarrow> nat" where
  "skipWord i inp =
     (if i < length inp \<and> isWordByte (inp ! i) then skipWord (i + 1) inp else i)"
  by pat_completeness auto
termination
  by (relation "measure (\<lambda>(i, inp). length inp - i)") auto

declare skipWord.simps [simp del]

lemma skipNonWord_ge: "i \<le> skipNonWord i inp"
proof (induction i inp rule: skipNonWord.induct)
  case (1 i inp)
  show ?case
  proof (cases "i < length inp \<and> \<not> isWordByte (inp ! i)")
    case True
    then have "skipNonWord i inp = skipNonWord (i + 1) inp"
      by (subst skipNonWord.simps) simp
    with 1 True show ?thesis by simp
  next
    case False
    then show ?thesis by (subst skipNonWord.simps) auto
  qed
qed

lemma skipWord_ge: "i \<le> skipWord i inp"
proof (induction i inp rule: skipWord.induct)
  case (1 i inp)
  show ?case
  proof (cases "i < length inp \<and> isWordByte (inp ! i)")
    case True
    then have "skipWord i inp = skipWord (i + 1) inp"
      by (subst skipWord.simps) simp
    with 1 True show ?thesis by simp
  next
    case False
    then show ?thesis by (subst skipWord.simps) auto
  qed
qed



text \<open>Each round of the outer loop of \<open>findNextWord\<close> moves the index forward.\<close>

lemma skip_progress:
  assumes "i < length inp"
  shows "i < skipWord (skipNonWord i inp) inp"
proof (cases "isWordByte (inp ! i)")
  case True
  with assms have a: "skipNonWord i inp = i"
    by (subst skipNonWord.simps) simp
  from True assms have "skipWord i inp = skipWord (i + 1) inp"
    by (subst skipWord.simps) simp
  moreover have "i + 1 \<le> skipWord (i + 1) inp" by (rule skipWord_ge)
  ultimately show ?thesis using a by simp
next
  case False
  with assms have "skipNonWord i inp = skipNonWord (i + 1) inp"
    by (subst skipNonWord.simps) simp
  moreover have "i + 1 \<le> skipNonWord (i + 1) inp" by (rule skipNonWord_ge)
  moreover have "skipNonWord i inp \<le> skipWord (skipNonWord i inp) inp" by (rule skipWord_ge)
  ultimately show ?thesis by simp
qed

text \<open>
  \<open>findNextWord(i, in)\<close> returns the index after the word found and the lower-cased
  word; Go's \<open>nil\<close> slice, returned when no word is left, is the empty list (the callers
  only take its length).
\<close>

function findNextWord :: "nat \<Rightarrow> u8 list \<Rightarrow> nat \<times> u8 list" where
  "findNextWord i inp =
     (if i < length inp
      then (let wordStart = skipNonWord i inp;
                i' = skipWord wordStart inp
            in if i' - wordStart < bloomHashMinWordLength
               then findNextWord i' inp
               else (i', toLower (slice inp wordStart i')))
      else (i, []))"
  by pat_completeness auto
termination
proof (relation "measure (\<lambda>(i, inp). length inp - i)")
  show "wf (measure (\<lambda>(i, inp). length inp - i))" by simp
next
  fix i :: nat and inp :: "u8 list" and x xa
  assume a: "i < length inp" and x: "x = skipNonWord i inp" and xa: "xa = skipWord x inp"
  have "i < xa" using skip_progress [OF a] x xa by simp
  with a show "((xa, inp), (i, inp)) \<in> measure (\<lambda>(i, inp). length inp - i)"
    by simp
qed

declare findNextWord.simps [simp del]

lemma findNextWord_fst_gt:
  "i < length inp \<Longrightarrow> i < fst (findNextWord i inp)"
proof (induction i inp rule: findNextWord.induct)
  case (1 i inp)
  define ws where "ws = skipNonWord i inp"
  define i' where "i' = skipWord ws inp"
  have gt: "i < i'" using skip_progress [OF "1.prems"] by (simp add: i'_def ws_def)
  show ?case
  proof (cases "i' - ws < bloomHashMinWordLength")
    case True
    then have eq: "findNextWord i inp = findNextWord i' inp"
      using "1.prems" by (subst findNextWord.simps) (simp add: Let_def ws_def i'_def)
    show ?thesis
    proof (cases "i' < length inp")
      case True
      have "i' < fst (findNextWord i' inp)"
        using "1.IH" [OF "1.prems" ws_def i'_def \<open>i' - ws < bloomHashMinWordLength\<close> True] .
      with gt eq show ?thesis by simp
    next
      case False
      then have "findNextWord i' inp = (i', [])"
        by (subst findNextWord.simps) simp
      with gt eq show ?thesis by simp
    qed
  next
    case False
    then have "findNextWord i inp = (i', toLower (slice inp ws i'))"
      using "1.prems" by (subst findNextWord.simps) (simp add: Let_def ws_def i'_def)
    with gt show ?thesis by simp
  qed
qed

lemma findNextWord_snd_gt:
  "i < length inp \<Longrightarrow> findNextWord i inp = (i', s) \<Longrightarrow> i < i'"
  using findNextWord_fst_gt [of i inp] by simp

subsection \<open>CRC-32C\<close>

text \<open>
  \<open>crc32.Checksum(data, crcTab)\<close> of the Go library with the Castagnoli polynomial, in
  its table form: an entry of the table is eight shift steps with the reversed polynomial
  \<open>0x82f63b78\<close>; the checksum complements the register before and after the bytes.
\<close>

definition crcStep :: "u32 \<Rightarrow> u32" where
  "crcStep crc = (if crc AND 1 = 1 then drop_bit 1 crc XOR 0x82f63b78 else drop_bit 1 crc)"

definition crcTabEntry :: "u8 \<Rightarrow> u32" where
  "crcTabEntry i = (crcStep ^^ 8) (ucast i)"

definition crcUpdateByte :: "u32 \<Rightarrow> u8 \<Rightarrow> u32" where
  "crcUpdateByte crc v = crcTabEntry (ucast crc XOR v) XOR drop_bit 8 crc"

definition crc32c :: "u8 list \<Rightarrow> u32" where
  "crc32c data = NOT (foldl crcUpdateByte (NOT 0) data)"

subsection \<open>The hashers\<close>

definition isDigit :: "u8 \<Rightarrow> bool" where
  "isDigit c = (48 \<le> c \<and> c \<le> 57)"

text \<open>
  \<open>bloomHasherCRCBlocked64B8K3\<close>, innermost loop:
  \<open>for j := i + 4; j < i+8 && j <= len(s); j++\<close>, appending three probes for each
  \<open>j\<close>. \<open>base|h%512\<close> is \<open>base | (h % 512)\<close> in Go.
\<close>

function blockedProbes :: "u8 list \<Rightarrow> nat \<Rightarrow> u32 \<Rightarrow> nat \<Rightarrow> u32 list \<Rightarrow> u32 list" where
  "blockedProbes s i base j out =
     (if j < i + 8 \<and> j \<le> length s
      then (let h = crc32c (slice s i j)
            in blockedProbes s i base (j + 1)
                 (out @ [base OR (h mod 512),
                         base OR (drop_bit 9 h mod 512),
                         base OR (drop_bit 18 h mod 512)]))
      else out)"
  by pat_completeness auto
termination
  by (relation "measure (\<lambda>(s, i, base, j, out). i + 8 - j)") auto

declare blockedProbes.simps [simp del]

text \<open>
  The loop over the start positions of a word: \<open>for i := 0; i <= len(s)-4; i++\<close>, in
  Go's signed integers (for the empty word the bound is \<open>-4\<close>). The multiplication by
  512 wraps in 32 bits.
\<close>

function blockedWord :: "u8 list \<Rightarrow> nat \<Rightarrow> u32 list \<Rightarrow> u32 list" where
  "blockedWord s i out =
     (if int i \<le> int (length s) - 4
      then (if isDigit (s ! i)
            then blockedWord s (i + 1) out
            else blockedWord s (i + 1)
                   (blockedProbes s i (crc32c (slice s i (i + 4)) * 512) (i + 4) out))
      else out)"
  by pat_completeness auto
termination
  by (relation "measure (\<lambda>(s, i, out). length s - i)") auto

declare blockedWord.simps [simp del]

text \<open>The outer loop \<open>for i := 0; i < len(in); { i, s = findNextWord(i, in); ... }\<close>.\<close>

function blockedLoop :: "u8 list \<Rightarrow> nat \<Rightarrow> u32 list \<Rightarrow> u32 list" where
  "blockedLoop inp i out =
     (if i < length inp
      then (case findNextWord i inp of (i', s) \<Rightarrow> blockedLoop inp i' (blockedWord s 0 out))
      else out)"
  by pat_completeness auto
termination
  by (relation "measure (\<lambda>(inp, i, out). length inp - i)")
     (auto dest: findNextWord_snd_gt [OF _ sym] intro: diff_less_mono2)

declare blockedLoop.simps [simp del]

definition bloomHasherCRCBlocked64B8K3 :: "u8 list \<Rightarrow> u32 list" where
  "bloomHasherCRCBlocked64B8K3 inp = blockedLoop inp 0 []"

text \<open>
  \<open>bloomHasherCRC\<close>, one of the experimental hashers of the file: the checksums of
  all substrings of length 10 down to 4 of each word that do not start with a digit.
\<close>

function crcPositions :: "u8 list \<Rightarrow> nat \<Rightarrow> nat \<Rightarrow> u32 list \<Rightarrow> u32 list" where
  "crcPositions s l i out =
     (if i + l \<le> length s
      then (if isDigit (s ! i)
            then crcPositions s l (i + 1) out
            else crcPositions s l (i + 1) (out @ [crc32c (slice s i (i + l))]))
      else out)"
  by pat_completeness auto
termination
  by (relation "measure (\<lambda>(s, l, i, out). Suc (length s) - i)") auto

declare crcPositions.simps [simp del]

function crcLengths :: "u8 list \<Rightarrow> nat \<Rightarrow> u32 list \<Rightarrow> u32 list" where
  "crcLengths s l out =
     (if 4 \<le> l
      then (if length s < l
            then crcLengths s (l - 1) out
            else crcLengths s (l - 1) (crcPositions s l 0 out))
      else out)"
  by pat_completeness auto
termination
  by (relation "measure (\<lambda>(s, l, out). l)") auto

declare crcLengths.simps [simp del]

function crcLoop :: "u8 list \<Rightarrow> nat \<Rightarrow> u32 list \<Rightarrow> u32 list" where
  "crcLoop inp i out =
     (if i < length inp
      then (case findNextWord i inp of (i', s) \<Rightarrow> crcLoop inp i' (crcLengths s 10 out))
      else out)"
  by pat_completeness auto
termination
  by (relation "measure (\<lambda>(inp, i, out). length inp - i)")
     (auto dest: findNextWord_snd_gt [OF _ sym] intro: diff_less_mono2)

declare crcLoop.simps [simp del]

definition bloomHasherCRC :: "u8 list \<Rightarrow> u32 list" where
  "bloomHasherCRC inp = crcLoop inp 0 []"

subsection \<open>The filter\<close>

text \<open>
  A value of the function type \<open>bloomHash\<close>. \<open>GobEncode\<close> looks the function up by
  its code pointer, so the two hashers modelled above are kept apart by name; any other
  function, such as the remaining experimental hashers of the file, is \<open>OtherHasher\<close>.
\<close>

datatype bloomHash =
    BloomHasherCRCBlocked64B8K3
  | BloomHasherCRC
  | OtherHasher "u8 list \<Rightarrow> u32 list"

fun callHasher :: "bloomHash \<Rightarrow> u8 list \<Rightarrow> u32 list" where
  "callHasher BloomHasherCRCBlocked64B8K3 inp = bloomHasherCRCBlocked64B8K3 inp"
| "callHasher BloomHasherCRC inp = bloomHasherCRC inp"
| "callHasher (OtherHasher f) inp = f inp"

record bloom =
  hasher :: bloomHash
  bits :: "u8 list"

definition bloomSizeBase :: nat where
  "bloomSizeBase = 12252240"

definition bloomDefaultHash :: bloomHash where
  "bloomDefaultHash = BloomHasherCRCBlocked64B8K3"

definition makeBloomFilterEmpty :: bloom where
  "makeBloomFilterEmpty = \<lparr>hasher = bloomDefaultHash, bits = replicate bloomSizeBase 0\<rparr>"

definition makeBloomFilterWithHasher :: "bloomHash \<Rightarrow> bloom" where
  "makeBloomFilterWithHasher hash = \<lparr>hasher = hash, bits = replicate bloomSizeBase 0\<rparr>"

definition Len :: "bloom \<Rightarrow> nat" where
  "Len b = length (bits b) * 8"

text \<open>
  The byte index \<open>int(x/8) % len(b.bits)\<close> and the mask \<open>1 << (x % 8)\<close> of a probe. The
  remainder panics when the filter has no bytes.
\<close>

definition probeIndex :: "bloom \<Rightarrow> u32 \<Rightarrow> nat" where
  "probeIndex b x = unat (x div 8) mod length (bits b)"

definition probeMask :: "u32 \<Rightarrow> u8" where
  "probeMask x = push_bit (unat (x mod 8)) 1"

fun add :: "bloom \<Rightarrow> u32 list \<Rightarrow> panic + bloom" where
  "add b [] = Inr b"
| "add b (x # xs) =
     (if length (bits b) = 0 then Inl DivideByZero
      else add (b\<lparr>bits := (bits b)[probeIndex b x := (bits b ! probeIndex b x) OR probeMask x]\<rparr>) xs)"

definition addBytes :: "bloom \<Rightarrow> u8 list \<Rightarrow> panic + bloom" where
  "addBytes b data = add b (callHasher (hasher b) data)"

fun maybeHas :: "bloom \<Rightarrow> u32 list \<Rightarrow> panic + bool" where
  "maybeHas b [] = Inr True"
| "maybeHas b (x # xs) =
     (if length (bits b) = 0 then Inl DivideByZero
      else if (bits b ! probeIndex b x) AND probeMask x = 0 then Inr False
      else maybeHas b xs)"

definition maybeHasBytes :: "bloom \<Rightarrow> u8 list \<Rightarrow> panic + bool" where
  "maybeHasBytes b xs = maybeHas b (callHasher (hasher b) xs)"

subsection \<open>Load and shrinking\<close>

text \<open>\<open>bits.OnesCount8\<close> of the Go library: the number of bits set in a byte.\<close>

definition onesCount8 :: "u8 \<Rightarrow> nat" where
  "onesCount8 x = length (filter (bit x) [0..<8])"

text \<open>The loop of \<open>load\<close> that adds the bit counts of the bytes to its \<open>total\<close>.\<close>

fun loadTotal :: "u8 list \<Rightarrow> nat \<Rightarrow> nat" where
  "loadTotal [] tot = tot"
| "loadTotal (x # xs) tot = loadTotal xs (tot + onesCount8 x)"

text \<open>
  \<open>load\<close> divides two integers as 64-bit floats; they are real numbers here. For a
  filter without bytes the quotient is 0/0, the NaN of Go, which is \<open>None\<close>.
\<close>

definition load :: "bloom \<Rightarrow> real option" where
  "load b =
     (if length (bits b) * 8 = 0 then None
      else Some (real (loadTotal (bits b) 0) / real (length (bits b) * 8)))"

text \<open>
  The conversion \<open>int(x)\<close> of a finite float: the fraction is dropped. The conversion of a
  NaN is left to the implementation by the Go specification; \<open>intOfNaN\<close> is the value on
  amd64.
\<close>

definition goInt :: "real \<Rightarrow> int" where
  "goInt x = (if 0 \<le> x then \<lfloor>x\<rfloor> else \<lceil>x\<rceil>)"

definition intOfNaN :: int where
  "intOfNaN = - (2 ^ 63)"

text \<open>
  The factor that \<open>shrinkToSize\<close> computes from the load and the target, for a target
  strictly between 0 and 1, with \<open>math.Log\<close> as the natural logarithm of the reals:
  \<^item> a NaN load gives a NaN \<open>divisor\<close>, which differs from 0, and the factor is the
    conversion of a NaN;
  \<^item> a load of 1 gives the \<open>divisor\<close> \<open>Log(0)\<close>, minus infinity, and the quotient of the
    finite \<open>Log(1-target)\<close> by it is 0;
  \<^item> otherwise the \<open>divisor\<close> is finite, and a \<open>divisor\<close> of 0 (an empty filter) leaves the
    factor at the number of bytes.
\<close>

definition shrinkFactor :: "bloom \<Rightarrow> real \<Rightarrow> int" where
  "shrinkFactor b target =
     (case load b of
        None \<Rightarrow> intOfNaN
      | Some x \<Rightarrow>
          if 1 - x = 0 then 0
          else (let divisor = ln (1 - x)
                in if divisor \<noteq> 0 then goInt (ln (1 - target) / divisor)
                   else int (length (bits b))))"

text \<open>The loop \<open>for factor > 0 && len(b.bits)%factor != 0 { factor-- }\<close>.\<close>

function reduceFactor :: "nat \<Rightarrow> int \<Rightarrow> int" where
  "reduceFactor n factor =
     (if 0 < factor \<and> int n mod factor \<noteq> 0 then reduceFactor n (factor - 1) else factor)"
  by pat_completeness auto
termination
  by (relation "measure (\<lambda>(n, factor). nat factor)") auto

declare reduceFactor.simps [simp del]

text \<open>
  The loop that ORs the bytes of the filter into the output, with the input index \<open>i\<close>
  and the output index \<open>j\<close>, which starts again from 0 at the end of the output. A write
  outside the output would panic.
\<close>

function shrinkLoop :: "u8 list \<Rightarrow> nat \<Rightarrow> nat \<Rightarrow> u8 list \<Rightarrow> panic + u8 list" where
  "shrinkLoop bs i j out =
     (if i < length bs
      then (if j < length out
            then (let out' = out[j := (out ! j) OR (bs ! i)];
                      j' = j + 1
                  in shrinkLoop bs (i + 1) (if length out' \<le> j' then 0 else j') out')
            else Inl IndexOutOfRange)
      else Inr out)"
  by pat_completeness auto
termination
  by (relation "measure (\<lambda>(bs, i, j, out). length bs - i)") auto

declare shrinkLoop.simps [simp del]

definition shrinkToSize :: "bloom \<Rightarrow> real \<Rightarrow> panic + bloom" where
  "shrinkToSize b target =
     (if target \<le> 0 \<or> 1 \<le> target then Inr b
      else (let factor = reduceFactor (length (bits b)) (shrinkFactor b target)
            in if factor \<le> 1 then Inr b
               else (case shrinkLoop (bits b) 0 0
                            (replicate (length (bits b) div nat factor) 0) of
                       Inl e \<Rightarrow> Inl e
                     | Inr out \<Rightarrow> Inr \<lparr>hasher = hasher b, bits = out\<rparr>)))"

subsection \<open>Serialization\<close>

text \<open>
  \<open>bloomHasherIds\<close> is a Go map from code pointers to identifiers with the single
  entry of the default hasher; reading a missing key gives the zero value.
  \<open>bloomHashers\<close> is the slice of the registered hashers.
\<close>

definition bloomHasherIds :: "bloomHash \<Rightarrow> u8" where
  "bloomHasherIds h = (case h of BloomHasherCRCBlocked64B8K3 \<Rightarrow> 1 | _ \<Rightarrow> 0)"

definition bloomHashers :: "bloomHash list" where
  "bloomHashers = [BloomHasherCRCBlocked64B8K3]"

text \<open>\<open>GobEncode\<close> always returns a nil error, so only its bytes are modelled.\<close>

definition GobEncode :: "bloom \<Rightarrow> u8 list" where
  "GobEncode b = 1 # bloomHasherIds (hasher b) # bits b"

datatype decodeError = WrongSizeOrVersion | UnknownHasherType

text \<open>
  \<open>GobDecode\<close> writes the receiver only when it succeeds: \<open>Inr\<close> is the receiver
  after the call, \<open>Inl\<close> the error returned with the receiver untouched.
\<close>

definition GobDecode :: "bloom \<Rightarrow> u8 list \<Rightarrow> decodeError + bloom" where
  "GobDecode b buf =
     (if length buf < 2 \<or> buf ! 0 \<noteq> 1 then Inl WrongSizeOrVersion
      else if buf ! 1 \<le> 0 \<or> unat (buf ! 1) > length bloomHashers then Inl UnknownHasherType
      else Inr (b\<lparr>hasher := bloomHashers ! (unat (buf ! 1 - 1)), bits := drop 2 buf\<rparr>))"

text \<open>A hasher identifier is registered when it names an entry of \<open>bloomHashers\<close>.\<close>

definition registeredId :: "u8 \<Rightarrow> bool" where
  "registeredId i = (0 < i \<and> unat i \<le> length bloomHashers)"

section \<open>Delta encoding of offsets (toDeltas)\<close>

text \<open>
  \<open>binary.PutUvarint(buf, x)\<close> of the Go library: seven bits a byte, low bits first,
  the top bit of a byte set when more bytes follow. It writes into \<open>buf\<close> from index 0
  and returns the number of bytes written; a write past the end of the buffer panics.
\<close>

lemma drop_bit_7_less:
  fixes x :: u64
  assumes "128 \<le> x"
  shows "unat (drop_bit 7 x) < unat x"
proof -
  have "128 \<le> unat x" using assms by (simp add: word_le_nat_alt)
  then have "unat x div 128 < unat x" by simp
  then show ?thesis by (simp add: drop_bit_eq_div unat_div)
qed

function putUvarintLoop :: "u8 list \<Rightarrow> nat \<Rightarrow> u64 \<Rightarrow> panic + (u8 list \<times> nat)" where
  "putUvarintLoop buf i x =
     (if 128 \<le> x
      then (if i < length buf
            then putUvarintLoop (buf[i := ucast x OR 128]) (i + 1) (drop_bit 7 x)
            else Inl IndexOutOfRange)
      else (if i < length buf then Inr (buf[i := ucast x], i + 1)
            else Inl IndexOutOfRange))"
  by pat_completeness auto
termination
  by (relation "measure (\<lambda>(buf, i, x). unat x)") (auto intro: drop_bit_7_less)

declare putUvarintLoop.simps [simp del]

definition PutUvarint :: "u8 list \<Rightarrow> u64 \<Rightarrow> panic + (u8 list \<times> nat)" where
  "PutUvarint buf x = putUvarintLoop buf 0 x"

text \<open>
  \<open>toDeltas\<close>: the loop over the offsets, with the eight-byte array \<open>enc\<close> that every
  round writes, the last offset \<open>lastp\<close>, and the bytes appended so far. The subtraction is in 32
  bits.
\<close>

fun toDeltasLoop :: "u8 list \<Rightarrow> u32 \<Rightarrow> u32 list \<Rightarrow> u8 list \<Rightarrow> panic + u8 list" where
  "toDeltasLoop enc lastp [] deltas = Inr deltas"
| "toDeltasLoop enc lastp (p # ps) deltas =
     (let delta = p - lastp
      in case PutUvarint enc (ucast delta) of
           Inl e \<Rightarrow> Inl e
         | Inr (enc', m) \<Rightarrow> toDeltasLoop enc' p ps (deltas @ take m enc'))"

definition toDeltas :: "u32 list \<Rightarrow> panic + u8 list" where
  "toDeltas offsets = toDeltasLoop (replicate 8 0) 0 offsets []"

subsection \<open>The encoding in the words of the specification\<close>

text \<open>The unsigned LEB128 varint of a number.\<close>

function leb128 :: "nat \<Rightarrow> u8 list" where
  "leb128 n = (if n < 128 then [of_nat n] else of_nat (n mod 128 + 128) # leb128 (n div 128))"
  by pat_completeness auto
termination
  by (relation "measure (\<lambda>n. n)") auto

declare leb128.simps [simp del]

text \<open>The successive differences of a list of numbers, the first relative to \<open>lastp\<close>.\<close>

fun differences :: "nat \<Rightarrow> nat list \<Rightarrow> nat list" where
  "differences lastp [] = []"
| "differences lastp (p # ps) = (p - lastp) # differences p ps"

text \<open>
  Modelled from the spec: the decoder of a delta-encoded posting list, which is not among
  the source files. It reads unsigned LEB128 varints one after the other and takes the
  prefix sums of the values read, as 32-bit offsets. A byte string that ends inside a varint
  does not decode.
\<close>

fun readUvarint :: "u8 list \<Rightarrow> (nat \<times> u8 list) option" where
  "readUvarint [] = None"
| "readUvarint (b # bs) =
     (if b < 128 then Some (unat b, bs)
      else (case readUvarint bs of
              None \<Rightarrow> None
            | Some (v, rest) \<Rightarrow> Some (unat (b AND 127) + 128 * v, rest)))"

lemma readUvarint_shorter:
  "readUvarint bs = Some (v, rest) \<Longrightarrow> length rest < length bs"
  by (induction bs arbitrary: v rest) (auto split: if_splits option.splits)

function fromDeltas :: "u32 \<Rightarrow> u8 list \<Rightarrow> u32 list option" where
  "fromDeltas lastp data =
     (if data = [] then Some []
      else (case readUvarint data of
              None \<Rightarrow> None
            | Some (v, rest) \<Rightarrow>
                map_option ((#) (lastp + of_nat v)) (fromDeltas (lastp + of_nat v) rest)))"
  by pat_completeness auto
termination
  by (relation "measure (\<lambda>(lastp, data). length data)")
     (auto dest: readUvarint_shorter)

declare fromDeltas.simps [simp del]

section \<open>Notions of the claims\<close>


text \<open>
  The probes of the blocked hasher in the words of the claim: the three probes of a block
  key \<open>base\<close> and a checksum \<open>h\<close>; the probes of a start index \<open>i\<close> of a fragment
  \<open>s\<close>, for the lengths \<open>lo\<close> to \<open>hi\<close> that fit into the fragment, none when
  \<open>s[i]\<close> is a digit; and the probes of all start indices that leave four bytes.
\<close>

definition threeProbes :: "u32 \<Rightarrow> u32 \<Rightarrow> u32 list" where
  "threeProbes base h =
     [base OR (h mod 512), base OR (drop_bit 9 h mod 512), base OR (drop_bit 18 h mod 512)]"

definition startProbes :: "nat \<Rightarrow> nat \<Rightarrow> u8 list \<Rightarrow> nat \<Rightarrow> u32 list" where
  "startProbes lo hi s i =
     (if isDigit (s ! i) then []
      else concat (map (\<lambda>l. threeProbes (crc32c (slice s i (i + 4)) * 512)
                                       (crc32c (slice s i (i + l))))
                       (filter (\<lambda>l. i + l \<le> length s) [lo..<Suc hi])))"

definition fragmentProbes :: "nat \<Rightarrow> nat \<Rightarrow> u8 list \<Rightarrow> u32 list" where
  "fragmentProbes lo hi s = concat (map (startProbes lo hi s) [0..<length s - 3])"

text \<open>
  The word fragments of an input: what the successive calls of \<open>findNextWord\<close> return,
  the empty fragment of the last call included.
\<close>

function fragments :: "nat \<Rightarrow> u8 list \<Rightarrow> u8 list list" where
  "fragments i inp =
     (if i < length inp
      then (case findNextWord i inp of (i', s) \<Rightarrow> s # fragments i' inp)
      else [])"
  by pat_completeness auto
termination
  by (relation "measure (\<lambda>(i, inp). length inp - i)")
     (auto dest: findNextWord_snd_gt [OF _ sym] intro: diff_less_mono2)

declare fragments.simps [simp del]

text \<open>A sequence of calls of \<open>addBytes\<close>, one for each key of a list, in order.\<close>

fun addBytesAll :: "bloom \<Rightarrow> u8 list list \<Rightarrow> panic + bloom" where
  "addBytesAll b [] = Inr b"
| "addBytesAll b (k # ks) =
     (case addBytes b k of Inl e \<Rightarrow> Inl e | Inr b' \<Rightarrow> addBytesAll b' ks)"

section \<open>Claims\<close>

lemma bloomWordTab_value:
  "bloomWordTab = [0x3FF000000000000, 0x7FFFFFE83FFFFFE, 0, 0]"
  unfolding bloomWordTab_def initBloomWordTab_def by code_simp

text \<open>
  Claim C3. The claim says that the word-byte table holds exactly the ASCII letters of
  both cases (the letter Z included), the digits and the underscore, and that
  \<open>findNextWord\<close> returns the lower-cased maximal runs of such bytes of length at least
  four. The code is evaluated here at the byte Z (code 90) and at the input ZZZZ: the table
  does not hold Z, although it holds Y and z, and \<open>findNextWord\<close> finds no word in ZZZZ,
  where the claim asks for zzzz.
\<close>

theorem C3_upper_Z_not_word_byte:
  "\<not> isWordByte 90 \<and> isWordByte 89 \<and> isWordByte 122
   \<and> findNextWord 0 [90, 90, 90, 90] = (4, [])"
proof -
  have z: "\<not> isWordByte 90"
    unfolding isWordByte_def bloomWordTab_value by simp
  have y: "isWordByte 89" "isWordByte 122"
    unfolding isWordByte_def bloomWordTab_value by simp_all
  have "findNextWord 0 [90, 90, 90, 90] = (4, [])"
    by (simp add: findNextWord.simps skipNonWord.simps skipWord.simps z
        bloomHashMinWordLength_def)
  with z y show ?thesis by simp
qed

text \<open>
  Claim C6, as stated, at a filter made by \<open>makeBloomFilterWithHasher(bloomHasherCRC)\<close>:
  the claim says that the second byte written by \<open>GobEncode\<close> is a registered hasher
  identifier and that \<open>GobDecode\<close> succeeds on every output of \<open>GobEncode\<close>. The
  hasher is not a key of \<open>bloomHasherIds\<close>, so the byte is 0, which is not registered,
  and \<open>GobDecode\<close> rejects the bytes.
\<close>

theorem C6_gob_unregistered_counterexample:
  "GobEncode (makeBloomFilterWithHasher BloomHasherCRC) ! 1 = 0
   \<and> \<not> registeredId (GobEncode (makeBloomFilterWithHasher BloomHasherCRC) ! 1)
   \<and> GobDecode makeBloomFilterEmpty (GobEncode (makeBloomFilterWithHasher BloomHasherCRC))
       = Inl UnknownHasherType"
  by (simp add: GobEncode_def GobDecode_def makeBloomFilterWithHasher_def bloomHasherIds_def
      registeredId_def)

text \<open>
  Claim C6, amended. \<open>GobEncode\<close> writes the version byte 1, then the byte that
  \<open>bloomHasherIds\<close> gives for the filter's hasher, then the bit bytes. \<open>GobDecode\<close>
  returns an error exactly when the buffer has fewer than two bytes, or its first byte is
  not 1, or its second byte is not a registered identifier. For a filter whose hasher is the
  registered one (the default hasher), the identifier byte is 1 and registered, and
  \<open>GobDecode\<close> of the encoding succeeds and gives back the same bits and hasher. For
  a filter with any other hasher, the identifier byte is 0, which is not registered, and
  \<open>GobDecode\<close> rejects the encoding as naming an unknown hasher.
\<close>

theorem C6_gob_roundtrip_registered:
  "GobEncode b = 1 # bloomHasherIds (hasher b) # bits b
   \<and> ((\<exists>e. GobDecode b0 buf = Inl e)
        \<longleftrightarrow> (length buf < 2 \<or> buf ! 0 \<noteq> 1 \<or> \<not> registeredId (buf ! 1)))
   \<and> (hasher b = BloomHasherCRCBlocked64B8K3 \<longrightarrow>
        GobEncode b = 1 # 1 # bits b
        \<and> registeredId (GobEncode b ! 1)
        \<and> GobDecode b0 (GobEncode b) = Inr b)
   \<and> (hasher b \<noteq> BloomHasherCRCBlocked64B8K3 \<longrightarrow>
        GobEncode b = 1 # 0 # bits b
        \<and> \<not> registeredId (GobEncode b ! 1)
        \<and> GobDecode b0 (GobEncode b) = Inl UnknownHasherType)"
proof -
  have enc: "GobEncode b = 1 # bloomHasherIds (hasher b) # bits b"
    by (simp add: GobEncode_def)
  have err: "(\<exists>e. GobDecode b0 buf = Inl e)
        \<longleftrightarrow> (length buf < 2 \<or> buf ! 0 \<noteq> 1 \<or> \<not> registeredId (buf ! 1))"
    by (auto simp: GobDecode_def registeredId_def word_le_nat_alt word_less_nat_alt)
  have rt: "GobEncode b = 1 # 1 # bits b \<and> registeredId (GobEncode b ! 1)
        \<and> GobDecode b0 (GobEncode b) = Inr b"
    if h: "hasher b = BloomHasherCRCBlocked64B8K3"
  proof -
    have "b0\<lparr>hasher := BloomHasherCRCBlocked64B8K3, bits := bits b\<rparr> = b"
      using h by (cases b, cases b0) simp
    then show ?thesis
      using h by (simp add: GobEncode_def GobDecode_def bloomHasherIds_def bloomHashers_def
          registeredId_def)
  qed
  have unreg: "GobEncode b = 1 # 0 # bits b \<and> \<not> registeredId (GobEncode b ! 1)
        \<and> GobDecode b0 (GobEncode b) = Inl UnknownHasherType"
    if h: "hasher b \<noteq> BloomHasherCRCBlocked64B8K3"
  proof -
    have "bloomHasherIds (hasher b) = 0"
      using h by (cases "hasher b") (simp_all add: bloomHasherIds_def)
    then show ?thesis
      by (simp add: GobEncode_def GobDecode_def registeredId_def)
  qed
  from enc err rt unreg show ?thesis by blast
qed

text \<open>
  The amended claim C6 at a two-byte filter with the default hasher, and at a one-byte
  filter with the hasher \<open>bloomHasherCRC\<close>, which is not registered.
\<close>

theorem C6_gob_roundtrip_registered_witness:
  "hasher \<lparr>hasher = BloomHasherCRCBlocked64B8K3, bits = [5, 7]\<rparr> = BloomHasherCRCBlocked64B8K3
   \<and> GobEncode \<lparr>hasher = BloomHasherCRCBlocked64B8K3, bits = [5, 7]\<rparr> = [1, 1, 5, 7]
   \<and> GobDecode \<lparr>hasher = BloomHasherCRC, bits = []\<rparr> [1, 1, 5, 7]
       = Inr \<lparr>hasher = BloomHasherCRCBlocked64B8K3, bits = [5, 7]\<rparr>
   \<and> (\<exists>e. GobDecode \<lparr>hasher = BloomHasherCRC, bits = []\<rparr> [1] = Inl e)
   \<and> hasher \<lparr>hasher = BloomHasherCRC, bits = [9]\<rparr> \<noteq> BloomHasherCRCBlocked64B8K3
   \<and> GobEncode \<lparr>hasher = BloomHasherCRC, bits = [9]\<rparr> = [1, 0, 9]
   \<and> GobDecode \<lparr>hasher = BloomHasherCRC, bits = []\<rparr> [1, 0, 9] = Inl UnknownHasherType"
  using C6_gob_roundtrip_registered
          [of "\<lparr>hasher = BloomHasherCRCBlocked64B8K3, bits = [5, 7]\<rparr>"
              "\<lparr>hasher = BloomHasherCRC, bits = []\<rparr>" "[1]"]
        C6_gob_roundtrip_registered
          [of "\<lparr>hasher = BloomHasherCRC, bits = [9]\<rparr>"
              "\<lparr>hasher = BloomHasherCRC, bits = []\<rparr>" "[1]"]
  by (simp add: bloomHasherIds_def GobEncode_def)

subsection \<open>Delta encoding\<close>

lemma bit128: "bit (128::'a::semiring_bit_operations) k \<longleftrightarrow> possible_bit TYPE('a) k \<and> k = 7"
proof -
  have "(128::'a) = 2 ^ 7" by simp
  then show ?thesis by (simp only: bit_exp_iff)
qed

lemma byte_or_128_nat: "(of_nat n :: u8) OR 128 = of_nat (n mod 128 + 128)"
proof (rule bit_word_eqI)
  fix k assume "k < LENGTH(8)"
  then have k: "k < 8" by simp
  have a: "n mod 128 + 128 = take_bit 7 n + 128"
    by (simp add: take_bit_eq_mod)
  have b: "take_bit 7 n + (128::nat) = take_bit 7 n OR 128"
    by (rule disjunctive_add) (auto simp: bit_take_bit_iff bit128)
  show "bit ((of_nat n :: u8) OR 128) k = bit (of_nat (n mod 128 + 128) :: u8) k"
    unfolding a b using k
    by (auto simp add: bit_or_iff bit_of_nat_iff bit_take_bit_iff bit128)
qed

lemma unat_continuation_byte: "unat (of_nat (n mod 128 + 128) :: u8) = n mod 128 + 128"
proof -
  define m where "m = n mod 128 + 128"
  have "m < 256" by (simp add: m_def)
  then have "unat (of_nat m :: u8) = m" by (simp add: unat_of_nat)
  then show ?thesis by (simp only: m_def)
qed

lemma unat_and_127: "unat ((w :: u8) AND 127) = unat w mod 128"
proof -
  have "w AND 127 = take_bit 7 w" by (simp add: take_bit_eq_mask mask_eq_exp_minus_1)
  then show ?thesis by (simp add: unsigned_take_bit_eq take_bit_eq_mod unat_mod)
qed

lemma leb128_nonempty: "leb128 n \<noteq> []"
  by (subst leb128.simps) simp

lemma leb128_length_bound: "n < 128 ^ k \<Longrightarrow> 0 < k \<Longrightarrow> length (leb128 n) \<le> k"
proof (induction k arbitrary: n)
  case 0
  then show ?case by simp
next
  case (Suc k)
  show ?case
  proof (cases "n < 128")
    case True
    then show ?thesis by (subst leb128.simps) simp
  next
    case False
    then have k: "0 < k" using Suc.prems by (cases k) auto
    have "n div 128 < 128 ^ k" using Suc.prems by (simp add: less_mult_imp_div_less mult.commute)
    from Suc.IH [OF this k] False show ?thesis by (subst leb128.simps) simp
  qed
qed

lemma leb128_u32_length:
  fixes d :: u32
  shows "length (leb128 (unat d)) \<le> 5"
proof -
  have "unat d < 2 ^ 32" using unsigned_less [of d, where ?'a = nat] by simp
  then have "unat d < 128 ^ 5" by simp
  then show ?thesis by (rule leb128_length_bound) simp
qed

lemma putUvarintLoop_leb128:
  "i + length (leb128 (unat x)) \<le> length buf \<Longrightarrow>
   \<exists>buf'. putUvarintLoop buf i x = Inr (buf', i + length (leb128 (unat x)))
          \<and> length buf' = length buf
          \<and> take (i + length (leb128 (unat x))) buf' = take i buf @ leb128 (unat x)"
proof (induction buf i x rule: putUvarintLoop.induct)
  case (1 buf i x)
  show ?case
  proof (cases "128 \<le> x")
    case True
    then have big: "\<not> unat x < 128" by (simp add: word_le_nat_alt)
    have ub: "(ucast x :: u8) OR 128 = of_nat (unat x mod 128 + 128)"
      using byte_or_128_nat [of "unat x"] by simp
    have l: "leb128 (unat x) = of_nat (unat x mod 128 + 128) # leb128 (unat (drop_bit 7 x))"
      using big by (subst leb128.simps) (simp add: drop_bit_eq_div unat_div)
    have i: "i < length buf" using "1.prems" l by simp
    have pre: "i + 1 + length (leb128 (unat (drop_bit 7 x))) \<le> length (buf[i := ucast x OR 128])"
      using "1.prems" l by simp
    from "1.IH" [OF True i pre] obtain buf' where
      r: "putUvarintLoop (buf[i := ucast x OR 128]) (i + 1) (drop_bit 7 x)
            = Inr (buf', i + 1 + length (leb128 (unat (drop_bit 7 x))))"
      and len: "length buf' = length buf"
      and tk: "take (i + 1 + length (leb128 (unat (drop_bit 7 x)))) buf'
            = take (i + 1) (buf[i := ucast x OR 128]) @ leb128 (unat (drop_bit 7 x))"
      by auto
    have "putUvarintLoop buf i x = Inr (buf', i + length (leb128 (unat x)))"
      using True i r l by (subst putUvarintLoop.simps) simp
    moreover have "take (i + length (leb128 (unat x))) buf' = take i buf @ leb128 (unat x)"
      using tk i l ub by (simp add: take_Suc_conv_app_nth)
    ultimately show ?thesis using len by simp
  next
    case False
    then have small: "unat x < 128" by (simp add: word_le_nat_alt not_le)
    have l: "leb128 (unat x) = [of_nat (unat x)]"
      using small by (subst leb128.simps) simp
    have i: "i < length buf" using "1.prems" l by simp
    have "putUvarintLoop buf i x = Inr (buf[i := ucast x], i + length (leb128 (unat x)))"
      using False i l by (subst putUvarintLoop.simps) simp
    moreover have "take (i + length (leb128 (unat x))) (buf[i := ucast x])
        = take i buf @ leb128 (unat x)"
      using i l by (simp add: take_Suc_conv_app_nth)
    ultimately show ?thesis by simp
  qed
qed

lemma PutUvarint_u32:
  fixes d :: u32
  assumes "length enc = 8"
  shows "\<exists>enc' m. PutUvarint enc (ucast d) = Inr (enc', m) \<and> length enc' = 8
            \<and> take m enc' = leb128 (unat d)"
proof -
  have u: "unat (ucast d :: u64) = unat d" by (simp add: unsigned_ucast_eq take_bit_nat_eq_self unsigned_less [THEN order_less_trans])
  have "0 + length (leb128 (unat (ucast d :: u64))) \<le> length enc"
    using leb128_u32_length [of d] assms u by simp
  from putUvarintLoop_leb128 [OF this] show ?thesis
    using u assms by (auto simp: PutUvarint_def)
qed

lemma toDeltasLoop_leb128:
  "length enc = 8 \<Longrightarrow> sorted (lastp # ps) \<Longrightarrow>
   toDeltasLoop enc lastp ps deltas
     = Inr (deltas @ concat (map leb128 (differences (unat lastp) (map unat ps))))"
proof (induction ps arbitrary: enc lastp deltas)
  case Nil
  then show ?case by simp
next
  case (Cons p ps)
  from Cons.prems have le: "lastp \<le> p" and srt: "sorted (p # ps)" by auto
  have d: "unat (p - lastp) = unat p - unat lastp"
    using le by (simp add: unat_sub)
  from PutUvarint_u32 [OF Cons.prems(1), of "p - lastp"] obtain enc' m where
    put: "PutUvarint enc (ucast (p - lastp)) = Inr (enc', m)" and len: "length enc' = 8"
    and tk: "take m enc' = leb128 (unat (p - lastp))"
    by blast
  have "toDeltasLoop enc lastp (p # ps) deltas = toDeltasLoop enc' p ps (deltas @ take m enc')"
    using put by simp
  also have "\<dots> = Inr ((deltas @ take m enc')
      @ concat (map leb128 (differences (unat p) (map unat ps))))"
    by (rule Cons.IH [OF len srt])
  finally show ?case using tk d by simp
qed

lemma readUvarint_leb128: "readUvarint (leb128 n @ rest) = Some (n, rest)"
proof (induction n rule: leb128.induct)
  case (1 n)
  show ?case
  proof (cases "n < 128")
    case True
    then have l: "leb128 n = [of_nat n]" by (subst leb128.simps) simp
    have u: "unat (of_nat n :: u8) = n" using True by (simp add: unat_of_nat)
    then have "(of_nat n :: u8) < 128" using True by (simp add: word_less_nat_alt)
    with l u show ?thesis by simp
  next
    case False
    then have l: "leb128 n = of_nat (n mod 128 + 128) # leb128 (n div 128)"
      by (subst leb128.simps) simp
    have nl: "\<not> (of_nat (n mod 128 + 128) :: u8) < 128"
      by (simp only: word_less_nat_alt unat_continuation_byte) simp
    have v: "unat ((of_nat (n mod 128 + 128) :: u8) AND 127) = n mod 128"
      by (simp only: unat_and_127 unat_continuation_byte) simp
    from "1.IH" [OF False] have "readUvarint (leb128 (n div 128) @ rest) = Some (n div 128, rest)" .
    with l nl v show ?thesis by simp
  qed
qed

lemma fromDeltas_leb128:
  "sorted (lastp # ps) \<Longrightarrow>
   fromDeltas lastp (concat (map leb128 (differences (unat lastp) (map unat ps)))) = Some ps"
proof (induction ps arbitrary: lastp)
  case Nil
  then show ?case by (subst fromDeltas.simps) simp
next
  case (Cons p ps)
  from Cons.prems have le: "lastp \<le> p" and srt: "sorted (p # ps)" by auto
  define rest where "rest = concat (map leb128 (differences (unat p) (map unat ps)))"
  have bk: "lastp + of_nat (unat p - unat lastp) = p"
  proof -
    have "unat p - unat lastp = unat (p - lastp)" using le by (simp add: unat_sub)
    then show ?thesis by simp
  qed
  have "fromDeltas lastp (leb128 (unat p - unat lastp) @ rest)
      = map_option ((#) p) (fromDeltas p rest)"
    by (subst fromDeltas.simps) (simp add: readUvarint_leb128 bk leb128_nonempty)
  also have "fromDeltas p rest = Some ps"
    unfolding rest_def by (rule Cons.IH [OF srt])
  finally show ?case by (simp add: rest_def)
qed

text \<open>
  Claim C7. For every non-decreasing list \<open>xs\<close> of 32-bit offsets, \<open>toDeltas\<close> returns
  (without a panic) the concatenation of the unsigned LEB128 varints of the successive
  differences of \<open>xs\<close>, the first one relative to 0; and reading the varints of that byte
  string back and taking prefix sums gives \<open>xs\<close> again.
\<close>

theorem C7_toDeltas_roundtrip:
  "sorted xs \<Longrightarrow>
   toDeltas xs = Inr (concat (map leb128 (differences 0 (map unat xs))))
   \<and> fromDeltas 0 (concat (map leb128 (differences 0 (map unat xs)))) = Some xs"
proof -
  assume s: "sorted xs"
  have s0: "sorted ((0::u32) # xs)" using s by simp
  have "toDeltas xs = Inr (concat (map leb128 (differences 0 (map unat xs))))"
    using toDeltasLoop_leb128 [of "replicate 8 0" 0 xs "[]"] s0 by (simp add: toDeltas_def)
  moreover have "fromDeltas 0 (concat (map leb128 (differences 0 (map unat xs)))) = Some xs"
    using fromDeltas_leb128 [OF s0] by simp
  ultimately show ?thesis by simp
qed

text \<open>Claim C7 at the offsets 3, 300, 300, 70000.\<close>

theorem C7_toDeltas_roundtrip_witness:
  "sorted [3, 300, 300, 70000 :: u32]
   \<and> toDeltas [3, 300, 300, 70000] = Inr [3, 169, 2, 0, 196, 160, 4]
   \<and> fromDeltas 0 [3, 169, 2, 0, 196, 160, 4] = Some [3, 300, 300, 70000]"
  using C7_toDeltas_roundtrip [of "[3, 300, 300, 70000]"]
  by (simp add: leb128.simps)

subsection \<open>Inputs without a word\<close>









subsection \<open>The probes of the default hasher\<close>

lemma filter_le_upt: "filter (\<lambda>l. i + l \<le> n) [a..<b] = [a..<min b (Suc n - i)]"
  by (induction b) auto

lemma map_add_upt_left: "map (\<lambda>l. i + l) [a..<c] = [i + a..<i + c]"
  by (induction c) auto

lemma blockedProbes_eq:
  "blockedProbes s i base j out
     = out @ concat (map (\<lambda>j'. threeProbes base (crc32c (slice s i j')))
                         [j..<min (i + 8) (Suc (length s))])"
proof (induction s i base j out rule: blockedProbes.induct)
  case (1 s i base j out)
  show ?case
  proof (cases "j < i + 8 \<and> j \<le> length s")
    case True
    then have u: "[j..<min (i + 8) (Suc (length s))] = j # [j + 1..<min (i + 8) (Suc (length s))]"
      by (simp add: upt_conv_Cons)
    have "blockedProbes s i base j out
        = blockedProbes s i base (j + 1) (out @ threeProbes base (crc32c (slice s i j)))"
      using True by (subst blockedProbes.simps) (simp add: threeProbes_def Let_def)
    also have "\<dots> = (out @ threeProbes base (crc32c (slice s i j)))
        @ concat (map (\<lambda>j'. threeProbes base (crc32c (slice s i j')))
                      [j + 1..<min (i + 8) (Suc (length s))])"
      using "1.IH" [OF True refl] by (simp add: threeProbes_def)
    finally show ?thesis by (simp only: u) simp
  next
    case False
    then have "min (i + 8) (Suc (length s)) \<le> j" by auto
    moreover have "blockedProbes s i base j out = out"
      using False by (subst blockedProbes.simps) auto
    ultimately show ?thesis by simp
  qed
qed

lemma lengths_window:
  assumes "i + 4 \<le> length s"
  shows "[i + 4..<min (i + 8) (Suc (length s))]
           = map (\<lambda>l. i + l) (filter (\<lambda>l. i + l \<le> length s) [4..<Suc 7])"
proof -
  have "i + min (Suc 7) (Suc (length s) - i) = min (i + 8) (Suc (length s))"
    using assms by simp
  then show ?thesis by (simp only: filter_le_upt map_add_upt_left)
qed

lemma blockedProbes_start:
  assumes "i + 4 \<le> length s" "\<not> isDigit (s ! i)"
  shows "blockedProbes s i (crc32c (slice s i (i + 4)) * 512) (i + 4) out
           = out @ startProbes 4 7 s i"
  unfolding blockedProbes_eq lengths_window [OF assms(1)] startProbes_def
  using assms(2) by (simp add: comp_def)

lemma blockedWord_eq:
  "blockedWord s i out = out @ concat (map (startProbes 4 7 s) [i..<length s - 3])"
proof (induction s i out rule: blockedWord.induct)
  case (1 s i out)
  show ?case
  proof (cases "int i \<le> int (length s) - 4")
    case True
    then have i4: "i + 4 \<le> length s" by simp
    then have u: "[i..<length s - 3] = i # [i + 1..<length s - 3]"
      by (simp add: upt_conv_Cons)
    show ?thesis
    proof (cases "isDigit (s ! i)")
      case d: True
      have "blockedWord s i out = blockedWord s (i + 1) out"
        using True d by (subst blockedWord.simps) simp
      also have "\<dots> = out @ concat (map (startProbes 4 7 s) [i + 1..<length s - 3])"
        using "1.IH"(1) [OF True d] .
      finally have r: "blockedWord s i out
          = out @ concat (map (startProbes 4 7 s) [i + 1..<length s - 3])" .
      have sp: "startProbes 4 7 s i = []" using d by (simp add: startProbes_def)
      show ?thesis by (simp only: u r) (simp add: sp)
    next
      case d: False
      have "blockedWord s i out
          = blockedWord s (i + 1)
              (blockedProbes s i (crc32c (slice s i (i + 4)) * 512) (i + 4) out)"
        using True d by (subst blockedWord.simps) simp
      also have "\<dots> = blockedProbes s i (crc32c (slice s i (i + 4)) * 512) (i + 4) out
          @ concat (map (startProbes 4 7 s) [i + 1..<length s - 3])"
        using "1.IH"(2) [OF True d] .
      finally show ?thesis
        by (simp only: u blockedProbes_start [OF i4 d]) simp
    qed
  next
    case False
    then have "length s - 3 \<le> i" by auto
    moreover have "blockedWord s i out = out"
      using False by (subst blockedWord.simps) simp
    ultimately show ?thesis by simp
  qed
qed

lemma blockedLoop_eq:
  "blockedLoop inp i out = out @ concat (map (fragmentProbes 4 7) (fragments i inp))"
proof (induction inp i out rule: blockedLoop.induct)
  case (1 inp i out)
  show ?case
  proof (cases "i < length inp")
    case True
    obtain i' s where f: "findNextWord i inp = (i', s)" by (cases "findNextWord i inp")
    have "blockedLoop inp i out = blockedLoop inp i' (blockedWord s 0 out)"
      using True f by (subst blockedLoop.simps) simp
    also have "\<dots> = blockedWord s 0 out @ concat (map (fragmentProbes 4 7) (fragments i' inp))"
      using "1.IH" [OF True f [symmetric]] .
    also have "blockedWord s 0 out = out @ fragmentProbes 4 7 s"
      by (simp add: blockedWord_eq fragmentProbes_def)
    also have "fragments i inp = s # fragments i' inp"
      using True f by (subst fragments.simps) simp
    then have "(out @ fragmentProbes 4 7 s) @ concat (map (fragmentProbes 4 7) (fragments i' inp))
        = out @ concat (map (fragmentProbes 4 7) (fragments i inp))"
      by simp
    finally show ?thesis .
  next
    case False
    then have "blockedLoop inp i out = out" by (subst blockedLoop.simps) simp
    moreover have "fragments i inp = []" using False by (subst fragments.simps) simp
    ultimately show ?thesis by simp
  qed
qed

lemma isWordByte_some: "isWordByte 115" "isWordByte 111" "isWordByte 109" "isWordByte 101"
  unfolding isWordByte_def bloomWordTab_value by simp_all

lemma findNextWord_some: "findNextWord 0 [115, 111, 109, 101] = (4, [115, 111, 109, 101])"
  by (simp add: findNextWord.simps skipNonWord.simps skipWord.simps isWordByte_some
      bloomHashMinWordLength_def slice_def toLower_def toLowerByte_def)

lemma fragments_some: "fragments 0 [115, 111, 109, 101] = [[115, 111, 109, 101]]"
  by (simp add: fragments.simps findNextWord_some)

text \<open>
  Claim C4, as stated, at the input \<open>some\<close>: the claim has probes for the fragment
  lengths 5 to 8 only, which gives no probe for a four-byte word. The hasher returns the
  three probes of the four-byte fragment itself.
\<close>

theorem C4_lengths_5_to_8_counterexample:
  "bloomHasherCRCBlocked64B8K3 [115, 111, 109, 101]
     = threeProbes (crc32c [115, 111, 109, 101] * 512) (crc32c [115, 111, 109, 101])
   \<and> concat (map (fragmentProbes 5 8) (fragments 0 [115, 111, 109, 101])) = []
   \<and> bloomHasherCRCBlocked64B8K3 [115, 111, 109, 101]
       \<noteq> concat (map (fragmentProbes 5 8) (fragments 0 [115, 111, 109, 101]))"
proof -
  have d: "\<not> isDigit 115" by (simp add: isDigit_def)
  have a: "bloomHasherCRCBlocked64B8K3 [115, 111, 109, 101]
     = threeProbes (crc32c [115, 111, 109, 101] * 512) (crc32c [115, 111, 109, 101])"
    by (simp add: bloomHasherCRCBlocked64B8K3_def blockedLoop_eq fragments_some
        fragmentProbes_def startProbes_def d filter_le_upt slice_def)
  have b: "concat (map (fragmentProbes 5 8) (fragments 0 [115, 111, 109, 101])) = []"
    by (simp add: fragments_some fragmentProbes_def startProbes_def filter_le_upt)
  have c: "bloomHasherCRCBlocked64B8K3 [115, 111, 109, 101]
       \<noteq> concat (map (fragmentProbes 5 8) (fragments 0 [115, 111, 109, 101]))"
    unfolding a b by (simp add: threeProbes_def)
  from a b c show ?thesis by blast
qed

text \<open>
  Claim C4, amended. For every word fragment \<open>s\<close> the hasher appends, for every start
  index \<open>i\<close> with \<open>i + 4 \<le> len(s)\<close> whose byte is not an ASCII digit, in increasing order
  of \<open>i\<close>, with \<open>base = crc32c(s[i..i+4]) * 512\<close>, for each length \<open>l\<close> from 4 to 7 with
  \<open>i + l \<le> len(s)\<close>, in increasing order, and \<open>h = crc32c(s[i..i+l])\<close>, the three probes
  \<open>base | (h mod 512)\<close>, \<open>base | ((h>>9) mod 512)\<close>, \<open>base | ((h>>18) mod 512)\<close>, and
  nothing else; the output for an input is the concatenation of these lists over the
  fragments that \<open>findNextWord\<close> returns.
\<close>

theorem C4_probes_lengths_4_to_7:
  "blockedWord s 0 [] = fragmentProbes 4 7 s
   \<and> bloomHasherCRCBlocked64B8K3 inp = concat (map (fragmentProbes 4 7) (fragments 0 inp))"
  by (simp add: blockedWord_eq fragmentProbes_def bloomHasherCRCBlocked64B8K3_def blockedLoop_eq)

subsection \<open>Shrinking\<close>

lemma shrinkLoop_spec:
  "0 < length out \<Longrightarrow> j = i mod length out \<Longrightarrow>
   \<exists>out'. shrinkLoop bs i j out = Inr out' \<and> length out' = length out
     \<and> (\<forall>m<length out. \<forall>t. bit (out' ! m) t
           = (bit (out ! m) t
              \<or> (\<exists>i'. i \<le> i' \<and> i' < length bs \<and> i' mod length out = m \<and> bit (bs ! i') t)))"
proof (induction bs i j out rule: shrinkLoop.induct)
  case (1 bs i j out)
  define n where "n = length out"
  have n: "0 < n" and j: "j = i mod n" using "1.prems" by (simp_all add: n_def)
  then have jn: "j < n" by simp
  show ?case
  proof (cases "i < length bs")
    case True
    define out1 where "out1 = out[j := (out ! j) OR (bs ! i)]"
    define j1 where "j1 = (if length out1 \<le> j + 1 then 0 else j + 1)"
    have len1: "length out1 = n" by (simp add: out1_def n_def)
    have j1: "j1 = (i + 1) mod length out1"
    proof (cases "n \<le> j + 1")
      case True
      with jn have "j = n - 1" by simp
      then have "Suc (i mod n) = n" using j n by simp
      then have "(i + 1) mod n = 0" by (simp add: mod_Suc)
      with True show ?thesis by (simp add: j1_def len1)
    next
      case False
      then have "Suc (i mod n) \<noteq> n" using j by simp
      then have "(i + 1) mod n = j + 1" using j by (simp add: mod_Suc)
      with False show ?thesis by (simp add: j1_def len1)
    qed
    have step: "shrinkLoop bs i j out = shrinkLoop bs (i + 1) j1 out1"
      using True jn by (subst shrinkLoop.simps) (simp add: Let_def out1_def j1_def n_def)
    have "0 < length out1" using n len1 by simp
    moreover have "j < length out" using jn by (simp add: n_def)
    moreover have "(if length out1 \<le> j + 1 then 0 else j + 1) = (i + 1) mod length out1"
      using j1 by (simp only: j1_def)
    ultimately have "\<exists>out'.
         shrinkLoop bs (i + 1) (if length out1 \<le> j + 1 then 0 else j + 1) out1 = Inr out' \<and>
         length out' = length out1 \<and>
         (\<forall>m<length out1. \<forall>t. bit (out' ! m) t
           = (bit (out1 ! m) t
              \<or> (\<exists>i'\<ge>i + 1. i' < length bs \<and> i' mod length out1 = m \<and> bit (bs ! i') t)))"
      using "1.IH" [OF True _ out1_def refl] by blast
    then obtain out' where r: "shrinkLoop bs (i + 1) j1 out1 = Inr out'"
      and l: "length out' = length out1"
      and b: "\<forall>m<length out1. \<forall>t. bit (out' ! m) t
           = (bit (out1 ! m) t
              \<or> (\<exists>i'. i + 1 \<le> i' \<and> i' < length bs \<and> i' mod length out1 = m \<and> bit (bs ! i') t))"
      unfolding j1_def by blast
    have "bit (out' ! m) t
           = (bit (out ! m) t
              \<or> (\<exists>i'. i \<le> i' \<and> i' < length bs \<and> i' mod length out = m \<and> bit (bs ! i') t))"
      if m: "m < length out" for m t
    proof -
      have o1: "bit (out1 ! m) t = (bit (out ! m) t \<or> (m = j \<and> bit (bs ! i) t))"
        using m jn by (auto simp: out1_def n_def bit_or_iff nth_list_update)
      have "(\<exists>i'. i \<le> i' \<and> i' < length bs \<and> i' mod n = m \<and> bit (bs ! i') t)
          = ((m = j \<and> bit (bs ! i) t)
             \<or> (\<exists>i'. i + 1 \<le> i' \<and> i' < length bs \<and> i' mod n = m \<and> bit (bs ! i') t))"
        (is "?L = ?R")
      proof
        assume ?L
        then obtain i' where i': "i \<le> i'" "i' < length bs" "i' mod n = m" "bit (bs ! i') t"
          by blast
        show ?R
        proof (cases "i' = i")
          case True
          with i' j show ?thesis by simp
        next
          case False
          with i' have "i + 1 \<le> i'" by simp
          with i' show ?thesis by blast
        qed
      next
        assume ?R
        then show ?L
        proof
          assume "m = j \<and> bit (bs ! i) t"
          with j True show ?L by blast
        next
          assume "\<exists>i'. i + 1 \<le> i' \<and> i' < length bs \<and> i' mod n = m \<and> bit (bs ! i') t"
          then obtain i' where "i + 1 \<le> i'" "i' < length bs" "i' mod n = m" "bit (bs ! i') t"
            by blast
          then have "i \<le> i' \<and> i' < length bs \<and> i' mod n = m \<and> bit (bs ! i') t" by simp
          then show ?L by blast
        qed
      qed
      with b [rule_format, of m t] m o1 show ?thesis
        by (simp add: len1 n_def [symmetric])
    qed
    with step r l len1 show ?thesis by (simp add: n_def)
  next
    case False
    then have "shrinkLoop bs i j out = Inr out" by (subst shrinkLoop.simps) simp
    with False show ?thesis by auto
  qed
qed

lemma reduceFactor_post:
  "reduceFactor n f \<le> f \<and> (reduceFactor n f \<le> 0 \<or> int n mod reduceFactor n f = 0)"
proof (induction n f rule: reduceFactor.induct)
  case (1 n factor)
  show ?case
  proof (cases "0 < factor \<and> int n mod factor \<noteq> 0")
    case True
    then have "reduceFactor n factor = reduceFactor n (factor - 1)"
      by (subst reduceFactor.simps) simp
    with "1.IH" [OF True] show ?thesis by simp
  next
    case False
    then have "reduceFactor n factor = factor" by (subst reduceFactor.simps) auto
    with False show ?thesis by auto
  qed
qed

lemma reduceFactor_ge:
  "0 < n \<Longrightarrow> int n \<le> f \<Longrightarrow> reduceFactor n f = int n"
proof (induction n f rule: reduceFactor.induct)
  case (1 n factor)
  show ?case
  proof (cases "factor = int n")
    case True
    then show ?thesis by (subst reduceFactor.simps) simp
  next
    case False
    with "1.prems" have gt: "int n < factor" by simp
    then have "int n mod factor = int n" by simp
    with gt "1.prems" have c: "0 < factor \<and> int n mod factor \<noteq> 0" by simp
    then have "reduceFactor n factor = reduceFactor n (factor - 1)"
      by (subst reduceFactor.simps) simp
    also have "\<dots> = int n" using "1.IH" [OF c "1.prems"(1)] gt by simp
    finally show ?thesis .
  qed
qed

text \<open>What shrinking does to a filter with at least one byte.\<close>

lemma shrinkToSize_spec:
  assumes y: "0 < y" "y < 1" and L: "0 < length (bits b)"
  shows "\<exists>b'. shrinkToSize b y = Inr b' \<and> hasher b' = hasher b
           \<and> 0 < length (bits b') \<and> length (bits b') dvd length (bits b)
           \<and> (\<forall>m<length (bits b'). \<forall>t. bit (bits b' ! m) t
                 = (\<exists>i'<length (bits b). i' mod length (bits b') = m \<and> bit (bits b ! i') t))"
proof -
  define f where "f = reduceFactor (length (bits b)) (shrinkFactor b y)"
  show ?thesis
  proof (cases "f \<le> 1")
    case True
    then have "shrinkToSize b y = Inr b"
      using y by (simp add: shrinkToSize_def f_def [symmetric] Let_def)
    moreover have "(\<exists>i'<length (bits b). i' mod length (bits b) = m \<and> bit (bits b ! i') t)
        = bit (bits b ! m) t" if "m < length (bits b)" for m t
      using that by auto
    ultimately show ?thesis using L by simp
  next
    case False
    then have f1: "1 < f" by simp
    with reduceFactor_post [of "length (bits b)" "shrinkFactor b y"]
    have dv: "int (length (bits b)) mod f = 0" by (simp add: f_def)
    define k where "k = nat f"
    have k: "1 < k" "f = int k" using f1 by (simp_all add: k_def)
    from dv k have kd: "k dvd length (bits b)"
      by (metis dvd_eq_mod_eq_0 int_dvd_int_iff)
    define n where "n = length (bits b) div k"
    have nk: "n * k = length (bits b)" using kd by (simp add: n_def)
    have n: "0 < n" using L nk by (cases n) auto
    have nd: "n dvd length (bits b)" using nk by (metis dvd_triv_left)
    from shrinkLoop_spec [of "replicate n 0" 0 0 "bits b"] n
    obtain out' where r: "shrinkLoop (bits b) 0 0 (replicate n 0) = Inr out'"
      and l: "length out' = n"
      and bt: "\<forall>m<n. \<forall>t. bit (out' ! m) t
           = (\<exists>i'. i' < length (bits b) \<and> i' mod n = m \<and> bit (bits b ! i') t)"
      by auto
    have "shrinkToSize b y = Inr \<lparr>hasher = hasher b, bits = out'\<rparr>"
      using y False r
      by (simp add: shrinkToSize_def f_def [symmetric] Let_def n_def k_def)
    with l n nd bt show ?thesis by auto
  qed
qed

subsection \<open>Adding and querying\<close>

lemma probeMask_test:
  "((w :: u8) AND probeMask x = 0) = (\<not> bit w (unat (x mod 8)))"
  unfolding probeMask_def by (simp add: bit_iff_and_push_bit_not_eq_0)

lemma probe_bit_less: "unat ((x :: u32) mod 8) < 8"
proof -
  have "unat (x mod 8) = unat x mod 8" by (simp add: unat_mod)
  then show ?thesis by simp
qed

lemma probeMask_set:
  "bit ((w :: u8) OR probeMask x) t = (bit w t \<or> t = unat (x mod 8))"
  unfolding probeMask_def using probe_bit_less [of x]
  by (auto simp: bit_or_iff bit_exp_iff possible_bit_word)

lemma probeIndex_less: "0 < length (bits b) \<Longrightarrow> probeIndex b x < length (bits b)"
  by (simp add: probeIndex_def)

lemma maybeHas_True_iff:
  "0 < length (bits b) \<Longrightarrow>
   (maybeHas b xs = Inr True) = (\<forall>x\<in>set xs. bit (bits b ! probeIndex b x) (unat (x mod 8)))"
  by (induction xs) (auto simp: probeMask_test)

lemma add_spec:
  "0 < length (bits b) \<Longrightarrow>
   \<exists>b'. add b xs = Inr b' \<and> hasher b' = hasher b \<and> length (bits b') = length (bits b)
     \<and> (\<forall>m<length (bits b). \<forall>t. bit (bits b' ! m) t
           = (bit (bits b ! m) t \<or> (\<exists>x\<in>set xs. probeIndex b x = m \<and> unat (x mod 8) = t)))"
proof (induction xs arbitrary: b)
  case Nil
  then show ?case by simp
next
  case (Cons x xs)
  define b1 where
    "b1 = b\<lparr>bits := (bits b)[probeIndex b x := (bits b ! probeIndex b x) OR probeMask x]\<rparr>"
  have len1: "length (bits b1) = length (bits b)" by (simp add: b1_def)
  have h1: "hasher b1 = hasher b" by (simp add: b1_def)
  have pi: "probeIndex b1 z = probeIndex b z" for z by (simp add: probeIndex_def len1)
  have step: "add b (x # xs) = add b1 xs" using Cons.prems by (simp add: b1_def)
  have bit1: "bit (bits b1 ! m) t
      = (bit (bits b ! m) t \<or> (probeIndex b x = m \<and> unat (x mod 8) = t))"
    if "m < length (bits b)" for m t
    using that probeIndex_less [OF Cons.prems, of x]
    by (auto simp: b1_def nth_list_update probeMask_set)
  from Cons.IH [of b1] Cons.prems len1 obtain b' where
    r: "add b1 xs = Inr b'" and h: "hasher b' = hasher b1"
    and l: "length (bits b') = length (bits b1)"
    and bt: "\<forall>m<length (bits b1). \<forall>t. bit (bits b' ! m) t
           = (bit (bits b1 ! m) t \<or> (\<exists>z\<in>set xs. probeIndex b1 z = m \<and> unat (z mod 8) = t))"
    by auto
  have "bit (bits b' ! m) t
      = (bit (bits b ! m) t \<or> (\<exists>z\<in>set (x # xs). probeIndex b z = m \<and> unat (z mod 8) = t))"
    if m: "m < length (bits b)" for m t
    using bt [rule_format, of m t] m bit1 [OF m] by (auto simp: len1 pi)
  with step r h l h1 len1 show ?case by simp
qed

lemma addBytes_spec:
  assumes "0 < length (bits b)"
  shows "\<exists>b'. addBytes b k = Inr b' \<and> hasher b' = hasher b
           \<and> length (bits b') = length (bits b)
           \<and> (\<forall>m<length (bits b). \<forall>t. bit (bits b ! m) t \<longrightarrow> bit (bits b' ! m) t)
           \<and> (\<forall>x\<in>set (callHasher (hasher b) k).
                 bit (bits b' ! probeIndex b' x) (unat (x mod 8)))"
proof -
  from add_spec [OF assms, of "callHasher (hasher b) k"] obtain b' where
    r: "add b (callHasher (hasher b) k) = Inr b'" and h: "hasher b' = hasher b"
    and l: "length (bits b') = length (bits b)"
    and bt: "\<forall>m<length (bits b). \<forall>t. bit (bits b' ! m) t
           = (bit (bits b ! m) t
              \<or> (\<exists>x\<in>set (callHasher (hasher b) k). probeIndex b x = m \<and> unat (x mod 8) = t))"
    by blast
  have pi: "probeIndex b' z = probeIndex b z" for z by (simp add: probeIndex_def l)
  have "bit (bits b' ! probeIndex b' x) (unat (x mod 8))"
    if "x \<in> set (callHasher (hasher b) k)" for x
    using bt [rule_format, of "probeIndex b x" "unat (x mod 8)"] that
      probeIndex_less [OF assms, of x] by (auto simp: pi)
  with r h l bt show ?thesis by (auto simp: addBytes_def)
qed

lemma addBytesAll_spec:
  "0 < length (bits b0) \<Longrightarrow> addBytesAll b0 ks = Inr b \<Longrightarrow>
   hasher b = hasher b0 \<and> length (bits b) = length (bits b0)
   \<and> (\<forall>m<length (bits b0). \<forall>t. bit (bits b0 ! m) t \<longrightarrow> bit (bits b ! m) t)
   \<and> (\<forall>key\<in>set ks. \<forall>x\<in>set (callHasher (hasher b0) key).
         bit (bits b ! probeIndex b x) (unat (x mod 8)))"
proof (induction ks arbitrary: b0)
  case Nil
  then show ?case by simp
next
  case (Cons k ks)
  from addBytes_spec [OF Cons.prems(1), of k] obtain b1 where
    r: "addBytes b0 k = Inr b1" and h: "hasher b1 = hasher b0"
    and l: "length (bits b1) = length (bits b0)"
    and mono: "\<forall>m<length (bits b0). \<forall>t. bit (bits b0 ! m) t \<longrightarrow> bit (bits b1 ! m) t"
    and set1: "\<forall>x\<in>set (callHasher (hasher b0) k).
                 bit (bits b1 ! probeIndex b1 x) (unat (x mod 8))"
    by blast
  have rest: "addBytesAll b1 ks = Inr b" using Cons.prems(2) r by simp
  have pos1: "0 < length (bits b1)" using Cons.prems(1) l by simp
  from Cons.IH [OF pos1 rest] have
    h2: "hasher b = hasher b1" and l2: "length (bits b) = length (bits b1)"
    and mono2: "\<forall>m<length (bits b1). \<forall>t. bit (bits b1 ! m) t \<longrightarrow> bit (bits b ! m) t"
    and set2: "\<forall>key\<in>set ks. \<forall>x\<in>set (callHasher (hasher b1) key).
         bit (bits b ! probeIndex b x) (unat (x mod 8))"
    by auto
  have pi: "probeIndex b z = probeIndex b1 z" for z by (simp add: probeIndex_def l2)
  have "bit (bits b ! probeIndex b x) (unat (x mod 8))"
    if "x \<in> set (callHasher (hasher b0) k)" for x
    using set1 [rule_format, OF that] mono2 [rule_format, of "probeIndex b1 x"]
      probeIndex_less [OF pos1, of x] by (simp add: pi)
  with h h2 l l2 mono mono2 set2 show ?case by auto
qed

lemma shrink_keeps_probe:
  assumes y: "0 < y" "y < 1" and L: "0 < length (bits b)"
    and r: "shrinkToSize b y = Inr b'"
    and p: "bit (bits b ! probeIndex b x) (unat (x mod 8))"
  shows "bit (bits b' ! probeIndex b' x) (unat (x mod 8))"
proof -
  from shrinkToSize_spec [OF y L] r have
    n: "0 < length (bits b')" and d: "length (bits b') dvd length (bits b)"
    and bt: "\<forall>m<length (bits b'). \<forall>t. bit (bits b' ! m) t
                 = (\<exists>i'<length (bits b). i' mod length (bits b') = m \<and> bit (bits b ! i') t)"
    by auto
  have "probeIndex b x mod length (bits b') = probeIndex b' x"
    using d by (simp add: probeIndex_def mod_mod_cancel)
  moreover have "probeIndex b x < length (bits b)" using L by (rule probeIndex_less)
  ultimately have "\<exists>i'<length (bits b). i' mod length (bits b') = probeIndex b' x
      \<and> bit (bits b ! i') (unat (x mod 8))"
    using p by blast
  then show ?thesis
    using bt [rule_format, of "probeIndex b' x" "unat (x mod 8)"] probeIndex_less [OF n, of x]
    by simp
qed

text \<open>
  Claim C1. Let a filter whose byte length divides \<open>bloomSizeBase\<close> have received a
  sequence of \<open>addBytes\<close> calls, and let \<open>key\<close> be one of the byte strings added. Then
  for every target strictly between 0 and 1, \<open>shrinkToSize\<close> returns a filter (it does
  not panic), and \<open>maybeHasBytes\<close> of that filter returns true for \<open>key\<close>. The length
  of the filter that is shrunk divides \<open>bloomSizeBase\<close> as well.
\<close>

theorem C1_shrink_no_false_negatives:
  assumes "length (bits b0) dvd bloomSizeBase"
    and "addBytesAll b0 ks = Inr b"
    and "key \<in> set ks"
    and "0 < y" and "y < 1"
  shows "length (bits b) dvd bloomSizeBase
         \<and> (\<exists>b'. shrinkToSize b y = Inr b' \<and> maybeHasBytes b' key = Inr True)"
proof -
  have L0: "0 < length (bits b0)"
    using assms(1) by (auto simp: bloomSizeBase_def intro: Nat.gr0I)
  from addBytesAll_spec [OF L0 assms(2)] have
    h: "hasher b = hasher b0" and l: "length (bits b) = length (bits b0)"
    and st: "\<forall>x\<in>set (callHasher (hasher b0) key). bit (bits b ! probeIndex b x) (unat (x mod 8))"
    using assms(3) by auto
  have L: "0 < length (bits b)" using L0 l by simp
  from shrinkToSize_spec [OF assms(4,5) L] obtain b' where
    r: "shrinkToSize b y = Inr b'" and h': "hasher b' = hasher b"
    and n: "0 < length (bits b')"
    by blast
  have "\<forall>x\<in>set (callHasher (hasher b') key). bit (bits b' ! probeIndex b' x) (unat (x mod 8))"
    using st shrink_keeps_probe [OF assms(4,5) L r] by (simp add: h h')
  then have "maybeHasBytes b' key = Inr True"
    by (simp add: maybeHasBytes_def maybeHas_True_iff [OF n])
  with r l assms(1) show ?thesis by simp
qed

text \<open>
  Claim C1 at the new empty filter, to which the key \<open>some\<close> is added, and the target
  one half.
\<close>

theorem C1_shrink_no_false_negatives_witness:
  "length (bits makeBloomFilterEmpty) dvd bloomSizeBase
   \<and> (\<exists>b. addBytesAll makeBloomFilterEmpty [[115, 111, 109, 101]] = Inr b
          \<and> [115, 111, 109, 101] \<in> set [[115, 111, 109, 101 :: u8]]
          \<and> (0 :: real) < 1 / 2 \<and> (1 / 2 :: real) < 1
          \<and> (\<exists>b'. shrinkToSize b (1 / 2) = Inr b'
                 \<and> maybeHasBytes b' [115, 111, 109, 101] = Inr True))"
proof -
  have d: "length (bits makeBloomFilterEmpty) dvd bloomSizeBase"
    by (simp add: makeBloomFilterEmpty_def)
  have "0 < length (bits makeBloomFilterEmpty)"
    by (simp add: makeBloomFilterEmpty_def bloomSizeBase_def)
  from addBytes_spec [OF this, of "[115, 111, 109, 101]"] obtain b where
    "addBytes makeBloomFilterEmpty [115, 111, 109, 101] = Inr b" by blast
  then have a: "addBytesAll makeBloomFilterEmpty [[115, 111, 109, 101]] = Inr b" by simp
  have m: "[115, 111, 109, 101] \<in> set [[115, 111, 109, 101 :: u8]]" by simp
  have y: "(0 :: real) < 1 / 2" "(1 / 2 :: real) < 1" by simp_all
  from C1_shrink_no_false_negatives [OF d a m y] d a m y show ?thesis by blast
qed

subsection \<open>The load of a shrunk filter\<close>

lemma loadTotal_sum: "loadTotal xs t = t + sum_list (map onesCount8 xs)"
  by (induction xs arbitrary: t) simp_all

lemma filter_length_mono:
  "(\<forall>x\<in>set xs. P x \<longrightarrow> Q x) \<Longrightarrow> length (filter P xs) \<le> length (filter Q xs)"
  by (induction xs) auto

lemma onesCount8_mono: "(\<forall>t. bit x t \<longrightarrow> bit y t) \<Longrightarrow> onesCount8 x \<le> onesCount8 y"
  unfolding onesCount8_def by (rule filter_length_mono) simp

lemma sum_list_pointwise_le:
  fixes f :: "'a \<Rightarrow> nat"
  shows "length xs = length ys \<Longrightarrow> (\<forall>i<length xs. f (xs ! i) \<le> f (ys ! i))
     \<Longrightarrow> sum_list (map f xs) \<le> sum_list (map f ys)"
proof (induction xs ys rule: list_induct2)
  case Nil
  then show ?case by simp
next
  case (Cons x xs y ys)
  have "f x \<le> f y" using Cons.prems by (auto dest: spec [of _ 0])
  moreover have "\<forall>i<length xs. f (xs ! i) \<le> f (ys ! i)"
    using Cons.prems by (auto dest: spec [of _ "Suc i" for i])
  ultimately show ?case using Cons.IH by simp
qed

lemma grouped_sum_le:
  fixes f :: "'a \<Rightarrow> nat"
  shows "length bs = n * k \<Longrightarrow> length out = n
     \<Longrightarrow> (\<forall>i<length bs. f (bs ! i) \<le> f (out ! (i mod n)))
     \<Longrightarrow> sum_list (map f bs) \<le> k * sum_list (map f out)"
proof (induction k arbitrary: bs)
  case 0
  then show ?case by simp
next
  case (Suc k)
  define bs1 where "bs1 = take (n * k) bs"
  define bs2 where "bs2 = drop (n * k) bs"
  have split: "bs = bs1 @ bs2" by (simp add: bs1_def bs2_def)
  have l1: "length bs1 = n * k" using Suc.prems(1) by (simp add: bs1_def)
  have l2: "length bs2 = n" using Suc.prems(1) by (simp add: bs2_def)
  have p1: "\<forall>i<length bs1. f (bs1 ! i) \<le> f (out ! (i mod n))"
  proof (intro allI impI)
    fix i assume i: "i < length bs1"
    then have "bs1 ! i = bs ! i" by (simp add: bs1_def)
    moreover have "i < length bs" using i l1 Suc.prems(1) by simp
    ultimately show "f (bs1 ! i) \<le> f (out ! (i mod n))" using Suc.prems(3) by simp
  qed
  have p2: "\<forall>i<length bs2. f (bs2 ! i) \<le> f (out ! i)"
  proof (intro allI impI)
    fix i assume i: "i < length bs2"
    then have "bs2 ! i = bs ! (n * k + i)" using Suc.prems(1) by (simp add: bs2_def)
    moreover have "n * k + i < length bs" using i l2 Suc.prems(1) by simp
    moreover have "(n * k + i) mod n = i" using i l2 by simp
    ultimately show "f (bs2 ! i) \<le> f (out ! i)" using Suc.prems(3) by metis
  qed
  have "sum_list (map f bs1) \<le> k * sum_list (map f out)"
    by (rule Suc.IH [OF l1 Suc.prems(2) p1])
  moreover have "sum_list (map f bs2) \<le> sum_list (map f out)"
    using sum_list_pointwise_le [of bs2 out f] l2 Suc.prems(2) p2 by simp
  ultimately show ?case by (simp add: split)
qed

lemma load_Some:
  "0 < length (bits b) \<Longrightarrow>
   load b = Some (real (sum_list (map onesCount8 (bits b))) / real (length (bits b) * 8))"
  by (simp add: load_def loadTotal_sum)

lemma shrink_total:
  assumes y: "0 < y" "y < 1" and L: "0 < length (bits b)"
    and r: "shrinkToSize b y = Inr b'"
  shows "0 < length (bits b') \<and>
         sum_list (map onesCount8 (bits b)) * length (bits b')
           \<le> sum_list (map onesCount8 (bits b')) * length (bits b)"
proof -
  from shrinkToSize_spec [OF y L] r have
    n: "0 < length (bits b')" and d: "length (bits b') dvd length (bits b)"
    and bt: "\<forall>m<length (bits b'). \<forall>t. bit (bits b' ! m) t
                 = (\<exists>i'<length (bits b). i' mod length (bits b') = m \<and> bit (bits b ! i') t)"
    by auto
  define n where "n = length (bits b')"
  from d obtain k where k: "length (bits b) = n * k" by (auto simp: n_def)
  have pw: "\<forall>i<length (bits b). onesCount8 (bits b ! i) \<le> onesCount8 (bits b' ! (i mod n))"
  proof (intro allI impI)
    fix i assume i: "i < length (bits b)"
    have m: "i mod n < length (bits b')" using n by (simp add: n_def)
    show "onesCount8 (bits b ! i) \<le> onesCount8 (bits b' ! (i mod n))"
    proof (rule onesCount8_mono, intro allI impI)
      fix t assume "bit (bits b ! i) t"
      with i have "\<exists>i'<length (bits b). i' mod length (bits b') = i mod n \<and> bit (bits b ! i') t"
        by (auto simp: n_def)
      with bt m show "bit (bits b' ! (i mod n)) t" by simp
    qed
  qed
  have "sum_list (map onesCount8 (bits b)) \<le> k * sum_list (map onesCount8 (bits b'))"
    by (rule grouped_sum_le [OF k _ pw]) (simp add: n_def)
  then have "sum_list (map onesCount8 (bits b)) * n
      \<le> (k * sum_list (map onesCount8 (bits b'))) * n"
    by (rule mult_le_mono1)
  also have "\<dots> = sum_list (map onesCount8 (bits b')) * length (bits b)"
    by (simp add: k mult.commute mult.left_commute)
  finally show ?thesis using n by (simp add: n_def)
qed

text \<open>
  Claim C5, amended. Shrinking never lowers the load: for every filter with at least one
  byte and every target strictly between 0 and 1, \<open>shrinkToSize\<close> returns a filter (it
  does not panic) whose load is greater than or equal to the load of the filter it was
  given. (The load of a filter without bytes is a NaN.)
\<close>

theorem C5_shrink_load_not_lower:
  assumes "0 < y" and "y < 1" and "0 < length (bits b)"
  shows "\<exists>b' x x'. shrinkToSize b y = Inr b' \<and> load b = Some x \<and> load b' = Some x'
           \<and> x \<le> x'"
proof -
  from shrinkToSize_spec [OF assms] obtain b' where r: "shrinkToSize b y = Inr b'" by blast
  from shrink_total [OF assms r] have n: "0 < length (bits b')"
    and le: "sum_list (map onesCount8 (bits b)) * length (bits b')
           \<le> sum_list (map onesCount8 (bits b')) * length (bits b)"
    by auto
  define T where "T = sum_list (map onesCount8 (bits b))"
  define T' where "T' = sum_list (map onesCount8 (bits b'))"
  define L where "L = length (bits b)"
  define N where "N = length (bits b')"
  have pos: "0 < real L" "0 < real N" using assms(3) n by (simp_all add: L_def N_def)
  have "real T * real N \<le> real T' * real L"
    using le unfolding T_def T'_def L_def N_def
    by (metis of_nat_mult of_nat_le_iff)
  then have "real T / real (L * 8) \<le> real T' / real (N * 8)"
    using pos by (simp add: field_simps)
  then show ?thesis
    using r load_Some [OF assms(3)] load_Some [OF n]
    by (auto simp: T_def T'_def L_def N_def)
qed

lemma onesCount8_values: "onesCount8 0 = 0" "onesCount8 1 = 1" "onesCount8 2 = 1" "onesCount8 3 = 2"
  by (simp_all add: onesCount8_def upt_rec bit_numeral_simps)

lemma goInt_ge:
  assumes "real_of_int k \<le> x" "0 \<le> k"
  shows "k \<le> goInt x"
proof -
  have "0 \<le> x" using assms by linarith
  then show ?thesis using assms by (simp add: goInt_def le_floor_iff)
qed

lemma shrinkLoop_two: "shrinkLoop [1, 2] 0 0 [0] = Inr [3]"
  by (simp add: shrinkLoop.simps)

lemma factor_two_bytes:
  "2 \<le> shrinkFactor \<lparr>hasher = BloomHasherCRCBlocked64B8K3, bits = [1, 2]\<rparr> (9 / 10)"
proof -
  have ld: "load \<lparr>hasher = BloomHasherCRCBlocked64B8K3, bits = [1, 2]\<rparr> = Some (1 / 8)"
    by (simp add: load_def onesCount8_values)
  have neg: "ln (7 / 8 :: real) < 0" by (rule ln_less_zero) simp_all
  have "ln (1 / 10 :: real) \<le> ln ((7 / 8) ^ 2)"
    by (subst ln_le_cancel_iff) (simp_all add: power2_eq_square)
  then have "ln (1 / 10 :: real) \<le> 2 * ln (7 / 8)"
    by (simp add: ln_realpow)
  then have "2 \<le> ln (1 / 10 :: real) / ln (7 / 8)"
    using neg by (simp add: le_divide_eq)
  then have "2 \<le> goInt (ln (1 / 10 :: real) / ln (7 / 8))"
    by (intro goInt_ge) simp_all
  moreover have "(1 :: real) - 1 / 8 = 7 / 8" "(1 :: real) - 9 / 10 = 1 / 10" by simp_all
  ultimately show ?thesis using neg by (simp add: shrinkFactor_def ld Let_def)
qed

text \<open>
  Claim C5, as stated, at the two-byte filter with the bytes 1 and 2 and the target 0.9:
  the claim says that the load of the shrunk filter is at most the load of the filter. The
  filter has the load 1/8; it is shrunk to the single byte 3, which has the load 1/4.
\<close>

theorem C5_load_rises_counterexample:
  "shrinkToSize \<lparr>hasher = BloomHasherCRCBlocked64B8K3, bits = [1, 2]\<rparr> (9 / 10)
     = Inr \<lparr>hasher = BloomHasherCRCBlocked64B8K3, bits = [3]\<rparr>
   \<and> load \<lparr>hasher = BloomHasherCRCBlocked64B8K3, bits = [1, 2]\<rparr> = Some (1 / 8)
   \<and> load \<lparr>hasher = BloomHasherCRCBlocked64B8K3, bits = [3]\<rparr> = Some (1 / 4)
   \<and> \<not> ((1 / 4 :: real) \<le> 1 / 8)"
proof -
  have "reduceFactor (Suc (Suc 0))
          (shrinkFactor \<lparr>hasher = BloomHasherCRCBlocked64B8K3, bits = [1, 2]\<rparr> (9 / 10)) = 2"
    using reduceFactor_ge [of "Suc (Suc 0)"] factor_two_bytes by simp
  then have "shrinkToSize \<lparr>hasher = BloomHasherCRCBlocked64B8K3, bits = [1, 2]\<rparr> (9 / 10)
     = Inr \<lparr>hasher = BloomHasherCRCBlocked64B8K3, bits = [3]\<rparr>"
    by (simp add: shrinkToSize_def shrinkLoop_two)
  then show ?thesis by (simp add: load_def onesCount8_values)
qed

text \<open>The amended claim C5 at the same filter and target.\<close>

theorem C5_shrink_load_not_lower_witness:
  "(0 :: real) < 9 / 10 \<and> (9 / 10 :: real) < 1
   \<and> 0 < length (bits \<lparr>hasher = BloomHasherCRCBlocked64B8K3, bits = [1, 2]\<rparr>)
   \<and> (\<exists>b' x x'. shrinkToSize \<lparr>hasher = BloomHasherCRCBlocked64B8K3, bits = [1, 2]\<rparr> (9 / 10)
                     = Inr b'
        \<and> load \<lparr>hasher = BloomHasherCRCBlocked64B8K3, bits = [1, 2]\<rparr> = Some x
        \<and> load b' = Some x' \<and> x \<le> x')"
  using C5_shrink_load_not_lower [of "9 / 10" "\<lparr>hasher = BloomHasherCRCBlocked64B8K3, bits = [1, 2]\<rparr>"]
  by simp

end
